theory Spec2Isabelle
  imports Main "HOL-Library.Multiset"
begin

section \<open>Text: Go strings as rune sequences\<close>

text \<open>
  The texts handled by the door come out of \<^verbatim>\<open>json.Unmarshal\<close>, which only produces valid
  UTF-8, so a Go string is modelled by the sequence of its runes (Unicode code points):
  \<^verbatim>\<open>[]rune(text)\<close> is the identity and \<^verbatim>\<open>len(runes)\<close> is \<open>length\<close>.
  Raw response bodies and error messages, which the code never measures, are HOL strings.
\<close>

type_synonym rune = nat
type_synonym gostring = "rune list"

definition runes :: "string \<Rightarrow> gostring" where
  "runes s = map of_char s"

text \<open>\<^verbatim>\<open>unicode.IsSpace\<close>: the Latin-1 spaces and the code points of category Z with property
  White\_Space.\<close>

definition isSpace :: "rune \<Rightarrow> bool" where
  "isSpace r =
     (r = 9 \<or> r = 10 \<or> r = 11 \<or> r = 12 \<or> r = 13 \<or> r = 32 \<or> r = 133 \<or> r = 160
      \<or> r = 5760 \<or> (8192 \<le> r \<and> r \<le> 8202) \<or> r = 8232 \<or> r = 8233 \<or> r = 8239
      \<or> r = 8287 \<or> r = 12288)"

text \<open>\<^verbatim>\<open>strings.Fields\<close>: the maximal runs of non-space runes, in order; \<open>cur\<close> is the
  field being read.\<close>

fun fields_from :: "gostring \<Rightarrow> gostring \<Rightarrow> gostring list" where
  "fields_from cur [] = (if cur = [] then [] else [cur])"
| "fields_from cur (r # rs) =
     (if isSpace r then (if cur = [] then fields_from [] rs else cur # fields_from [] rs)
      else fields_from (cur @ [r]) rs)"

definition Fields :: "gostring \<Rightarrow> gostring list" where
  "Fields s = fields_from [] s"

text \<open>\<^verbatim>\<open>strings.TrimSpace\<close>: drops the leading and the trailing white space.\<close>

definition TrimSpace :: "gostring \<Rightarrow> gostring" where
  "TrimSpace s = rev (dropWhile isSpace (rev (dropWhile isSpace s)))"

section \<open>wrapText (package terminal, and the identical copy in main.go)\<close>

definition ellipsis :: gostring where
  "ellipsis = [46, 46, 46]"

text \<open>
  The line the loop emits for a word longer than \<open>maxWidth\<close>; the source writes these four
  lines out twice, once in each branch. The slices \<^verbatim>\<open>wr[:maxWidth-3]\<close> and
  \<^verbatim>\<open>wr[:maxWidth]\<close> are only taken where \<^verbatim>\<open>len(wr) > maxWidth > 0\<close>, so they cannot panic.
\<close>

definition truncated :: "int \<Rightarrow> gostring \<Rightarrow> gostring" where
  "truncated maxWidth wr =
     (if maxWidth > 3 then take (nat (maxWidth - 3)) wr @ ellipsis
      else take (nat maxWidth) wr)"

text \<open>One iteration of \<^verbatim>\<open>for _, word := range words\<close> on the pair \<open>(lines, current)\<close>.\<close>

fun wrap_step :: "int \<Rightarrow> gostring list \<times> gostring \<Rightarrow> gostring \<Rightarrow> gostring list \<times> gostring" where
  "wrap_step maxWidth (lines, current) wr =
     (if length current = 0 then
        (if int (length wr) \<le> maxWidth then (lines, current @ wr)
         else (lines @ [truncated maxWidth wr], current))
      else if int (length current) + 1 + int (length wr) \<le> maxWidth then
        (lines, current @ [32] @ wr)
      else
        (if int (length wr) \<le> maxWidth then (lines @ [current], wr)
         else (lines @ [current] @ [truncated maxWidth wr], [])))"

definition wrapText :: "gostring \<Rightarrow> int \<Rightarrow> gostring list" where
  "wrapText text maxWidth =
     (if maxWidth \<le> 0 then [text]
      else if int (length text) \<le> maxWidth then [text]
      else let words = Fields text in
        if length words = 0 then [[]]
        else let (lines, current) = foldl (wrap_step maxWidth) ([], []) words;
                 lines' = (if length current > 0 then lines @ [current] else lines)
             in if length lines' = 0 then [[]] else lines')"

text \<open>The invariant of that loop used below: every finished line and the line being
  filled fit in \<open>maxWidth\<close>.\<close>

definition fits :: "int \<Rightarrow> gostring list \<times> gostring \<Rightarrow> bool" where
  "fits maxWidth st = (list_all (\<lambda>l. int (length l) \<le> maxWidth) (fst st) \<and> int (length (snd st)) \<le> maxWidth)"

section \<open>Events and the layout loops of RenderEvents\<close>

text \<open>\<^verbatim>\<open>wikimedia.Event\<close> and \<^verbatim>\<open>terminal.Event\<close> have the same two fields; generateEventList
  copies one into the other field by field.\<close>

record Event =
  Year :: int
  Text :: gostring

definition maxContentRows :: int where
  "maxContentRows = 12"

definition prefixDisplayLength :: int where
  "prefixDisplayLength = 10"

definition maxLineLength :: int where
  "maxLineLength = 75 - prefixDisplayLength"

text \<open>
  The fitting loop of RenderEvents on the pair \<open>(selected, totalRowsUsed)\<close>; \<^verbatim>\<open>break\<close> is the
  branch that returns without looking at the remaining events. The legacy generateEventList
  of main.go runs the same loop with its own byte-counting wrapText, so the wrapping function
  is the parameter \<open>wrap\<close>.
\<close>

fun fit_loop :: "(gostring \<Rightarrow> int \<Rightarrow> gostring list) \<Rightarrow> Event list \<Rightarrow> Event list \<times> int \<Rightarrow> Event list \<times> int" where
  "fit_loop wrap [] (selected, totalRowsUsed) = (selected, totalRowsUsed)"
| "fit_loop wrap (e # es) (selected, totalRowsUsed) =
     (let wrapped = wrap (TrimSpace (Text e)) maxLineLength;
          eventRows = int (length wrapped) + 1
      in if totalRowsUsed + eventRows \<le> maxContentRows \<and> length selected < 5
         then fit_loop wrap es (selected @ [e], totalRowsUsed + eventRows)
         else (selected, totalRowsUsed))"

text \<open>
  The display loop: what is printed, as (row, year of the prefix on a first line, text).
  \<^verbatim>\<open>wrapped[0]\<close> panics on an empty slice, which is the \<open>Inl\<close> result.
\<close>

datatype panic = IndexOutOfRange

type_synonym drawn = "int \<times> int option \<times> gostring"

fun display_loop :: "(gostring \<Rightarrow> int \<Rightarrow> gostring list) \<Rightarrow> Event list \<Rightarrow> int \<Rightarrow> panic + drawn list" where
  "display_loop wrap [] yPos = Inr []"
| "display_loop wrap (e # es) yPos =
     (case wrap (TrimSpace (Text e)) maxLineLength of
        [] \<Rightarrow> Inl IndexOutOfRange
      | first # rest \<Rightarrow>
          (case display_loop wrap es (yPos + 1 + int (length rest) + 1) of
             Inl p \<Rightarrow> Inl p
           | Inr ds \<Rightarrow>
               Inr ((yPos, Some (Year e), first)
                    # map (\<lambda>i. (yPos + 1 + int i, None, rest ! i)) [0..<length rest] @ ds)))"

definition RenderEvents :: "Event list \<Rightarrow> panic + drawn list" where
  "RenderEvents events = display_loop wrapText (fst (fit_loop wrapText events ([], 0))) 8"

section \<open>Randomness\<close>

text \<open>
  The process-wide generator of \<^verbatim>\<open>math/rand\<close> is a stream of raw values, threaded through
  the functions that draw from it. \<^verbatim>\<open>Intn n\<close> yields a value below \<open>n\<close>; every sequence of
  outcomes of the real generator is the image of some stream.
\<close>

type_synonym rng = "nat \<Rightarrow> nat"

definition Intn :: "rng \<Rightarrow> nat \<Rightarrow> nat \<times> rng" where
  "Intn g n = (g 0 mod n, \<lambda>k. g (Suc k))"

definition swap :: "'a list \<Rightarrow> nat \<Rightarrow> nat \<Rightarrow> 'a list" where
  "swap xs i j = xs[i := xs ! j, j := xs ! i]"

text \<open>\<^verbatim>\<open>rand.Shuffle\<close>: for \<open>i\<close> from \<open>n - 1\<close> down to 1, swap positions \<open>i\<close> and \<open>Intn (i + 1)\<close>.\<close>

fun shuffle_from :: "nat \<Rightarrow> rng \<Rightarrow> 'a list \<Rightarrow> 'a list \<times> rng" where
  "shuffle_from 0 g xs = (xs, g)"
| "shuffle_from (Suc i) g xs =
     (case Intn g (Suc i + 1) of (j, g') \<Rightarrow> shuffle_from i g' (swap xs (Suc i) j))"

definition Shuffle :: "rng \<Rightarrow> 'a list \<Rightarrow> 'a list \<times> rng" where
  "Shuffle g xs = shuffle_from (length xs - 1) g xs"

section \<open>Decimal printing (the verb d of fmt)\<close>

definition digit_char :: "nat \<Rightarrow> char" where
  "digit_char n = ''0123456789'' ! n"

fun show_nat :: "nat \<Rightarrow> string" where
  "show_nat n = (if n < 10 then [digit_char n] else show_nat (n div 10) @ [digit_char (n mod 10)])"

declare show_nat.simps [simp del]

definition show_int :: "int \<Rightarrow> string" where
  "show_int i = (if i < 0 then CHR ''-'' # show_nat (nat (- i)) else show_nat (nat i))"

section \<open>selectEventsByEra (main.go)\<close>

record eraDef =
  name :: string
  minYear :: int
  maxYear :: int
  quota :: nat

definition eras :: "eraDef list" where
  "eras =
     [\<lparr>name = ''Ancient'', minYear = 1, maxYear = 500, quota = 1\<rparr>,
      \<lparr>name = ''Medieval'', minYear = 501, maxYear = 1500, quota = 1\<rparr>,
      \<lparr>name = ''Early Modern'', minYear = 1501, maxYear = 1800, quota = 1\<rparr>,
      \<lparr>name = ''Modern'', minYear = 1801, maxYear = 1950, quota = 1\<rparr>,
      \<lparr>name = ''Contemporary'', minYear = 1951, maxYear = 2030, quota = 1\<rparr>]"

definition keyFor :: "Event \<Rightarrow> gostring" where
  "keyFor e = runes (show_int (Year e)) @ runes ''|'' @ Text e"

text \<open>The two variables the passes share: the slice \<open>selected\<close> and the map \<open>seen\<close>, whose
  keys mapped to true are a set.\<close>

record selection =
  selected :: "Event list"
  seen :: "gostring set"

text \<open>
  The quota loop over the shuffled indices of one era, \<open>qi\<close> being its counter. The indices
  are positions of \<open>allEvents\<close> (lemma \<open>Shuffle_set\<close> below), so the reads are in range.
\<close>

function pick_loop :: "Event list \<Rightarrow> nat list \<Rightarrow> nat \<Rightarrow> nat \<Rightarrow> selection \<Rightarrow> selection" where
  "pick_loop allEvents eraEvents q qi st =
     (if qi < q \<and> qi < length eraEvents then
        let ev = allEvents ! (eraEvents ! qi);
            k = keyFor ev;
            st' = (if k \<notin> seen st
                   then st\<lparr>selected := selected st @ [ev], seen := insert k (seen st)\<rparr>
                   else st)
        in if length (selected st') \<ge> 5 then st'
           else pick_loop allEvents eraEvents q (Suc qi) st'
      else st)"
  by pat_completeness auto
termination
  by (relation "measure (\<lambda>(allEvents, eraEvents, q, qi, st). length eraEvents - qi)") auto

text \<open>The first pass, one era after the other.\<close>

fun era_loop :: "Event list \<Rightarrow> eraDef list \<Rightarrow> rng \<Rightarrow> selection \<Rightarrow> selection \<times> rng" where
  "era_loop allEvents [] g st = (st, g)"
| "era_loop allEvents (era # rest) g st =
     (let eraEvents = filter (\<lambda>i. Year (allEvents ! i) \<ge> minYear era \<and> Year (allEvents ! i) \<le> maxYear era)
                        [0..<length allEvents]
      in if length eraEvents = 0 then era_loop allEvents rest g st
         else case Shuffle g eraEvents of (shuffled, g') \<Rightarrow>
           let st' = pick_loop allEvents shuffled (quota era) 0 st
           in if length (selected st') \<ge> 5 then (st', g')
              else era_loop allEvents rest g' st')"

text \<open>The second pass, which fills the remaining slots.\<close>

definition fill_remaining :: "Event list \<Rightarrow> rng \<Rightarrow> selection \<Rightarrow> Event list \<times> rng" where
  "fill_remaining allEvents g st =
     (if length (selected st) < 5 then
        let remaining = filter (\<lambda>i. keyFor (allEvents ! i) \<notin> seen st) [0..<length allEvents]
        in if length remaining > 0 then
             case Shuffle g remaining of (shuffled, g') \<Rightarrow>
               let need = (if 5 - length (selected st) > length shuffled
                           then length shuffled else 5 - length (selected st))
               in (selected st @ map (\<lambda>i. allEvents ! (shuffled ! i)) [0..<need], g')
           else (selected st, g)
      else (selected st, g))"

text \<open>\<^verbatim>\<open>sort.SliceStable\<close> with the comparison on Year is the stable sort by that key.\<close>

definition selectEventsByEra :: "rng \<Rightarrow> Event list \<Rightarrow> Event list \<times> rng" where
  "selectEventsByEra g allEvents =
     (if length allEvents = 0 then ([], g)
      else case era_loop allEvents eras g \<lparr>selected = [], seen = {}\<rparr> of (st, g1) \<Rightarrow>
        case fill_remaining allEvents g1 st of (sel, g2) \<Rightarrow>
          (sort_key Year sel, g2))"

section \<open>The selection strategies of generateEventList (main.go)\<close>

text \<open>The part of generateEventList between the fetch and the rendering: from the fetched
  events, the shuffle flag and the strategy name to the events handed to RenderEvents.\<close>

definition applyEraBased :: "rng \<Rightarrow> Event list \<Rightarrow> Event list \<times> rng" where
  "applyEraBased g events =
     (case selectEventsByEra g events of (sel, g') \<Rightarrow>
        if length sel > 0 then (sel, g') else (events, g'))"

definition applyStrategy :: "rng \<Rightarrow> string \<Rightarrow> Event list \<Rightarrow> Event list \<times> rng" where
  "applyStrategy g strategy events =
     (if strategy = ''era-based'' then applyEraBased g events
      else if strategy = ''random'' then
        (case (if length events > 1 then Shuffle g events else (events, g)) of (events', g') \<Rightarrow>
           (if length events' > 5 then take 5 events' else events', g'))
      else if strategy = ''oldest-first'' then
        (let events' = (if length events > 1 then sort_key Year events else events)
         in (if length events' > 5 then take 5 events' else events', g))
      else applyEraBased g events)"

definition selectForDisplay :: "rng \<Rightarrow> bool \<Rightarrow> string \<Rightarrow> Event list \<Rightarrow> Event list \<times> rng" where
  "selectForDisplay g shuffle strategy events =
     (let strategy' = (if shuffle \<and> strategy = ''oldest-first'' then ''random'' else strategy)
      in case applyStrategy g strategy' events of (events', g') \<Rightarrow>
           if shuffle \<and> length events' > 1 then Shuffle g' events' else (events', g'))"

section \<open>FetchOnThisDay (internal/wikimedia/client.go)\<close>

text \<open>
  client.go holds the package twice: an earlier copy (lines 1 to 215) and a later one (lines
  216 to 443). The two copies of FetchOnThisDay differ in the guard around the cache write
  and in the log lines; the retry loop is the same text in both. The model takes the copy as
  a parameter.
\<close>

datatype copy = Earlier | Later

record Client =
  cacheDir :: string
  ttl :: int

text \<open>
  Everything outside the process is an oracle of the environment: the file system, the JSON
  decoder of the standard library, the server, the generator behind \<^verbatim>\<open>rand.Int63n\<close> and the
  cancellation of the context. Durations are nanoseconds, as in \<^verbatim>\<open>time.Duration\<close>; the ones
  computed here stay below three seconds, far from the 64-bit range.
\<close>

datatype http_outcome =
    DoFailed string
  | ReadFailed string
  | Response int string

record env =
  statAge :: "string \<Rightarrow> int option"
  readFile :: "string \<Rightarrow> string + string"
  unmarshal :: "string \<Rightarrow> string + Event list"
  newRequestErr :: "string \<Rightarrow> string option"
  send :: "nat \<Rightarrow> http_outcome"
  int63 :: "nat \<Rightarrow> nat"
  ctxDone :: "nat \<Rightarrow> string option"
  writeErr :: "string \<Rightarrow> string \<Rightarrow> string option"

text \<open>
  \<^item> \<open>statAge path\<close>: \<^verbatim>\<open>os.Stat\<close> fails (\<open>None\<close>) or \<^verbatim>\<open>time.Since(fi.ModTime())\<close>;
  \<^item> \<open>readFile path\<close>: the content (\<open>Inr\<close>), or the error text when \<^verbatim>\<open>os.ReadFile\<close> fails;
  \<^item> \<open>unmarshal body\<close>: the decoded events array, or the decoder's error text;
  \<^item> \<open>newRequestErr url\<close>: the error of \<^verbatim>\<open>http.NewRequestWithContext\<close>, if any;
  \<^item> \<open>send k\<close>: what the request of attempt \<open>k\<close> meets: \<^verbatim>\<open>client.Do\<close> fails, reading the body
    fails, or a status code and a body arrive;
  \<^item> \<open>int63 k\<close>: the raw value behind \<^verbatim>\<open>rand.Int63n\<close> in the sleep after attempt \<open>k\<close>;
  \<^item> \<open>ctxDone k\<close>: \<^verbatim>\<open>ctx.Err()\<close> when the context is done before the timer of that sleep fires;
  \<^item> \<open>writeErr path data\<close>: the error of writeCacheFileAtomic, if any (its steps, temporary
    file, sync and rename, are not modelled one by one).
\<close>

datatype effect =
    Request nat string
  | Slept int
  | Cancelled
  | WriteCache string string
  | Log string

definition maxAttempts :: nat where
  "maxAttempts = 3"

definition millisecond :: int where
  "millisecond = 1000000"

definition parseEventsFromBody :: "env \<Rightarrow> string \<Rightarrow> string + Event list" where
  "parseEventsFromBody e body =
     (case unmarshal e body of
        Inl err \<Rightarrow> Inl (''failed to parse JSON: '' @ err)
      | Inr evs \<Rightarrow> Inr (map (\<lambda>x. \<lparr>Year = Year x, Text = Text x\<rparr>) evs))"

text \<open>The duration handed to \<^verbatim>\<open>time.After\<close> by sleepContext, from \<open>d\<close> and the raw random value.\<close>

definition jitter :: "nat \<Rightarrow> int" where
  "jitter raw =
     (let j = int (raw mod nat (200 * millisecond)) - 100 * millisecond
      in if j < 0 then 0 else j)"

definition sleepContext :: "env \<Rightarrow> nat \<Rightarrow> int \<Rightarrow> string option \<times> effect list" where
  "sleepContext e k d =
     (case ctxDone e k of
        None \<Rightarrow> (None, [Slept (d + jitter (int63 e k))])
      | Some err \<Rightarrow> (Some err, [Cancelled]))"

text \<open>
  The cache file name. The code builds it with \<^verbatim>\<open>filepath.Join\<close>, which also cleans the result
  (doubled separators, dot segments); the cleaning is not modelled, the two parts are joined
  by one separator. The name is only the key under which the environment is asked for the
  file, and for a directory already clean, such as the default one, both give the same name.
\<close>

definition cacheFileOf :: "Client \<Rightarrow> string \<Rightarrow> string \<Rightarrow> string" where
  "cacheFileOf c month day = cacheDir c @ ''/'' @ ''onthisday_'' @ month @ ''_'' @ day @ ''.json''"

definition urlOf :: "string \<Rightarrow> string \<Rightarrow> string" where
  "urlOf month day =
     ''https://api.wikimedia.org/feed/v1/wikipedia/en/onthisday/all/'' @ month @ ''/'' @ day"

text \<open>The cache lookup at the head of FetchOnThisDay: the events of a fresh, readable and
  parseable file, or nothing. Only the later copy logs the failures.\<close>

definition tryCache :: "copy \<Rightarrow> Client \<Rightarrow> env \<Rightarrow> string \<Rightarrow> Event list option \<times> effect list" where
  "tryCache cp c e cacheFile =
     (case statAge e cacheFile of
        None \<Rightarrow> (None, [])
      | Some age \<Rightarrow>
          if age \<le> ttl c then
            (case readFile e cacheFile of
               Inr data \<Rightarrow>
                 (case parseEventsFromBody e data of
                    Inr evs \<Rightarrow> (Some evs, [])
                  | Inl err \<Rightarrow>
                      (None, if cp = Later
                             then [Log (''FetchOnThisDay: parse error for cached file '' @ cacheFile @ '': '' @ err)]
                             else []))
             | Inl err \<Rightarrow>
                 (None, if cp = Later
                        then [Log (''FetchOnThisDay: failed to read cache file '' @ cacheFile @ '': '' @ err)]
                        else []))
          else (None, []))"

text \<open>The cache write after a successful parse: unconditional in the earlier copy, under
  \<^verbatim>\<open>if !bypassCache\<close> in the later one, which also logs a failure.\<close>

definition cacheWrite :: "copy \<Rightarrow> env \<Rightarrow> string \<Rightarrow> bool \<Rightarrow> string \<Rightarrow> effect list" where
  "cacheWrite cp e cacheFile bypassCache body =
     (case cp of
        Earlier \<Rightarrow> [WriteCache cacheFile body]
      | Later \<Rightarrow>
          if \<not> bypassCache then
            WriteCache cacheFile body
            # (case writeErr e cacheFile body of
                 None \<Rightarrow> []
               | Some err \<Rightarrow> [Log (''FetchOnThisDay: failed to write cache file '' @ cacheFile @ '': '' @ err)])
          else [])"

text \<open>
  One pass through the body of the retry loop, up to the point where it returns or reaches
  one of its three retry blocks. These blocks are the same statements (sleep, double the
  backoff, continue, or return \<open>lastErr\<close> on the last attempt) and are modelled once, in
  \<open>attempts\<close>; \<open>Transient\<close> carries the \<open>lastErr\<close> set just before the block.
\<close>

datatype attempt_result =
    Return "string + Event list"
  | Transient string

definition attempt_once :: "copy \<Rightarrow> env \<Rightarrow> string \<Rightarrow> string \<Rightarrow> bool \<Rightarrow> nat \<Rightarrow> attempt_result \<times> effect list" where
  "attempt_once cp e url cacheFile bypassCache attempt =
     (case newRequestErr e url of
        Some err \<Rightarrow> (Return (Inl err), [])
      | None \<Rightarrow>
          (case send e attempt of
             DoFailed err \<Rightarrow> (Transient (''network error: '' @ err), [Request attempt url])
           | ReadFailed err \<Rightarrow> (Transient (''failed to read response: '' @ err), [Request attempt url])
           | Response status body \<Rightarrow>
               if status = 200 then
                 (case parseEventsFromBody e body of
                    Inl err \<Rightarrow> (Return (Inl err), [Request attempt url])
                  | Inr evs \<Rightarrow>
                      (Return (Inr evs), Request attempt url # cacheWrite cp e cacheFile bypassCache body))
               else if status = 429 \<or> (status \<ge> 500 \<and> status < 600) then
                 (Transient (''API returned status code: '' @ show_int status), [Request attempt url])
               else
                 (Return (Inl (''API returned status code: '' @ show_int status @ '', body: '' @ body)),
                  [Request attempt url])))"

text \<open>The loop \<^verbatim>\<open>for attempt := 1; attempt <= maxAttempts; attempt++\<close>, with the trace of effects
  so far; the last line is the return after the loop, with \<open>lastErr\<close> printed by the verb v.\<close>

function attempts ::
  "copy \<Rightarrow> env \<Rightarrow> string \<Rightarrow> string \<Rightarrow> bool \<Rightarrow> nat \<Rightarrow> int \<Rightarrow> string option \<Rightarrow> effect list
   \<Rightarrow> (string + Event list) \<times> effect list" where
  "attempts cp e url cacheFile bypassCache attempt backoff lastErr tr =
     (if attempt \<le> maxAttempts then
        (case attempt_once cp e url cacheFile bypassCache attempt of
           (Return r, fx) \<Rightarrow> (r, tr @ fx)
         | (Transient err, fx) \<Rightarrow>
             if attempt < maxAttempts then
               (case sleepContext e attempt backoff of
                  (Some cerr, sx) \<Rightarrow> (Inl cerr, tr @ fx @ sx)
                | (None, sx) \<Rightarrow>
                    attempts cp e url cacheFile bypassCache (attempt + 1) (backoff * 2) (Some err)
                      (tr @ fx @ sx))
             else (Inl err, tr @ fx))
      else
        (Inl (''failed to fetch events: '' @ (case lastErr of None \<Rightarrow> ''<nil>'' | Some err \<Rightarrow> err)), tr))"
  by pat_completeness auto
termination
  by (relation "measure (\<lambda>(cp, e, url, cacheFile, bypassCache, attempt, backoff, lastErr, tr).
                  maxAttempts + 1 - attempt)") auto

definition FetchOnThisDay ::
  "copy \<Rightarrow> Client \<Rightarrow> env \<Rightarrow> string \<Rightarrow> string \<Rightarrow> bool \<Rightarrow> (string + Event list) \<times> effect list" where
  "FetchOnThisDay cp c e month day bypassCache =
     (if month = [] \<or> day = [] then (Inl ''month and day required'', [])
      else
        let cacheFile = cacheFileOf c month day;
            (hit, cx) = (if \<not> bypassCache then tryCache cp c e cacheFile else (None, []))
        in case hit of
             Some evs \<Rightarrow> (Inr evs, cx)
           | None \<Rightarrow>
               attempts cp e (urlOf month day) cacheFile bypassCache 1 (500 * millisecond) None cx)"

text \<open>Readings of a trace.\<close>

definition sleeps :: "effect list \<Rightarrow> int list" where
  "sleeps tr = concat (map (\<lambda>x. case x of Slept d \<Rightarrow> [d] | _ \<Rightarrow> []) tr)"

definition requests :: "effect list \<Rightarrow> nat list" where
  "requests tr = concat (map (\<lambda>x. case x of Request k u \<Rightarrow> [k] | _ \<Rightarrow> []) tr)"

definition cacheWrites :: "effect list \<Rightarrow> (string \<times> string) list" where
  "cacheWrites tr = concat (map (\<lambda>x. case x of WriteCache p b \<Rightarrow> [(p, b)] | _ \<Rightarrow> []) tr)"

declare attempts.simps [simp del]
declare pick_loop.simps [simp del]

section \<open>Auxiliary notions for the proofs\<close>

text \<open>Reading a decimal numeral back, to show that the printing loses nothing.\<close>

definition read_nat :: "gostring \<Rightarrow> nat" where
  "read_nat ds = foldl (\<lambda>a c. 10 * a + (c - 48)) 0 ds"

text \<open>The invariant of the two passes of selectEventsByEra: the selected events have
  pairwise different keys, all recorded in \<open>seen\<close>.\<close>

definition keys_ok :: "selection \<Rightarrow> bool" where
  "keys_ok st = (distinct (map keyFor (selected st)) \<and> keyFor ` set (selected st) \<subseteq> seen st)"

section \<open>Sample inputs\<close>

text \<open>A client with the default cache directory and a TTL of thirty minutes.\<close>

definition sample_client :: Client where
  "sample_client = \<lparr>cacheDir = ''.cache/wikimedia'', ttl = 1800000 * millisecond\<rparr>"

text \<open>
  A quiet environment: no cache file, a decoder that finds the events \<open>evs\<close> in any body, a
  server that answers every request with the same status and body, a generator that always
  yields \<open>raw\<close>, a context that is never cancelled and a disk that takes every write.
\<close>

definition quiet :: "int \<Rightarrow> string \<Rightarrow> Event list \<Rightarrow> nat \<Rightarrow> env" where
  "quiet status body evs raw =
     \<lparr>statAge = (\<lambda>p. None), readFile = (\<lambda>p. Inl ''no such file''), unmarshal = (\<lambda>b. Inr evs),
      newRequestErr = (\<lambda>u. None), send = (\<lambda>k. Response status body), int63 = (\<lambda>k. raw),
      ctxDone = (\<lambda>k. None), writeErr = (\<lambda>p b. None)\<rparr>"

definition six_events :: "Event list" where
  "six_events =
     [\<lparr>Year = 1215, Text = runes ''Magna Carta''\<rparr>,
      \<lparr>Year = 1492, Text = runes ''  Columbus sails ''\<rparr>,
      \<lparr>Year = 1789, Text = runes ''Bastille''\<rparr>,
      \<lparr>Year = 1903, Text = runes ''First flight''\<rparr>,
      \<lparr>Year = 1969, Text = runes ''Moon landing''\<rparr>,
      \<lparr>Year = 1989, Text = runes ''Berlin Wall''\<rparr>]"

text \<open>Five events whose text, 103 runes long, wraps to two lines at 65: three rows each.\<close>

definition apollo :: gostring where
  "apollo = runes ''The Apollo 11 lunar module lands on the Moon and two astronauts walk on its surface for the first time''"

definition five_long_events :: "Event list" where
  "five_long_events =
     [\<lparr>Year = 1965, Text = apollo\<rparr>, \<lparr>Year = 1966, Text = apollo\<rparr>, \<lparr>Year = 1967, Text = apollo\<rparr>,
      \<lparr>Year = 1968, Text = apollo\<rparr>, \<lparr>Year = 1969, Text = apollo\<rparr>]"

text \<open>
  The jitter as the specification words it, for comparison with \<open>jitter\<close>: the value drawn
  from the range from minus 100 ms to plus 100 ms, added as it is.
\<close>

definition spec_jitter :: "nat \<Rightarrow> int" where
  "spec_jitter raw = int (raw mod nat (200 * millisecond)) - 100 * millisecond"

section \<open>Properties of wrapText\<close>



lemma truncated_length:
  "0 < maxWidth \<Longrightarrow> maxWidth < int (length wr) \<Longrightarrow> int (length (truncated maxWidth wr)) = maxWidth"
  by (auto simp: truncated_def ellipsis_def)

lemma wrap_step_fits:
  assumes "0 < maxWidth" "fits maxWidth st"
  shows "fits maxWidth (wrap_step maxWidth st wr)"
proof (cases st)
  case (Pair lines current)
  show ?thesis
  proof (cases "maxWidth < int (length wr)")
    case True
    with assms Pair truncated_length [of maxWidth wr] show ?thesis
      by (auto simp: fits_def)
  next
    case False
    with assms Pair show ?thesis
      by (auto simp: fits_def)
  qed
qed

lemma wrap_loop_fits:
  "0 < maxWidth \<Longrightarrow> fits maxWidth st \<Longrightarrow> fits maxWidth (foldl (wrap_step maxWidth) st ws)"
proof (induction ws arbitrary: st)
  case Nil
  then show ?case by simp
next
  case (Cons w ws)
  from Cons.prems have "fits maxWidth (wrap_step maxWidth st w)" by (rule wrap_step_fits)
  with Cons.IH Cons.prems(1) show ?case by simp
qed

text \<open>
  Claim C7. For every text and every \<open>maxWidth \<ge> 1\<close>, every line returned by wrapText has
  at most \<open>maxWidth\<close> runes.
\<close>

theorem wrapText_lines_fit:
  assumes "1 \<le> maxWidth"
  shows "\<forall>l \<in> set (wrapText text maxWidth). int (length l) \<le> maxWidth"
proof -
  have inv: "fits maxWidth (foldl (wrap_step maxWidth) ([], []) (Fields text))"
    using assms by (intro wrap_loop_fits) (auto simp: fits_def)
  obtain lines current where lc: "foldl (wrap_step maxWidth) ([], []) (Fields text) = (lines, current)"
    by (cases "foldl (wrap_step maxWidth) ([], []) (Fields text)")
  from inv lc have "\<forall>l \<in> set lines. int (length l) \<le> maxWidth" "int (length current) \<le> maxWidth"
    by (auto simp: fits_def list_all_iff)
  with assms lc show ?thesis
    by (auto simp: wrapText_def Let_def)
qed

theorem wrapText_lines_fit_witness:
  "(1::int) \<le> 4
   \<and> wrapText (runes ''ab incomprehensible c'') 4 = [runes ''ab'', runes ''i...'', runes ''c'']
   \<and> list_all (\<lambda>l. int (length l) \<le> 4) (wrapText (runes ''ab incomprehensible c'') 4)"
proof -
  have h: "(1::int) \<le> 4" by simp
  have "wrapText (runes ''ab incomprehensible c'') 4 = [runes ''ab'', runes ''i...'', runes ''c'']"
    by (simp add: wrapText_def Fields_def runes_def isSpace_def truncated_def ellipsis_def Let_def)
  with h wrapText_lines_fit [OF h, of "runes ''ab incomprehensible c''"] show ?thesis
    by (simp add: list_all_iff)
qed



lemma display_loop_no_panic: "\<exists>ds. display_loop wrapText es yPos = Inr ds"
proof (induction es arbitrary: yPos)
  case Nil
  then show ?case by simp
next
  case (Cons e es)
  have "wrapText (TrimSpace (Text e)) maxLineLength \<noteq> []"
  proof -
    obtain lines current
      where "foldl (wrap_step maxLineLength) ([], []) (Fields (TrimSpace (Text e))) = (lines, current)"
      by (cases "foldl (wrap_step maxLineLength) ([], []) (Fields (TrimSpace (Text e)))")
    then show ?thesis by (simp add: wrapText_def Let_def)
  qed
  then obtain first rest where w: "wrapText (TrimSpace (Text e)) maxLineLength = first # rest"
    by (cases "wrapText (TrimSpace (Text e)) maxLineLength") auto
  from Cons.IH [of "yPos + 1 + int (length rest) + 1"] obtain ds
    where "display_loop wrapText es (yPos + 1 + int (length rest) + 1) = Inr ds" by blast
  with w show ?case by simp
qed

text \<open>
  Claim C10. wrapText never returns an empty slice, whatever the text and the width
  (non-positive widths, empty and all-blank texts included), so the read of
  \<^verbatim>\<open>wrapped[0]\<close> in the display loop of RenderEvents never panics.
\<close>

theorem wrapText_nonempty:
  "wrapText text maxWidth \<noteq> [] \<and> (\<exists>ds. RenderEvents events = Inr ds)"
proof
  obtain lines current where lc: "foldl (wrap_step maxWidth) ([], []) (Fields text) = (lines, current)"
    by (cases "foldl (wrap_step maxWidth) ([], []) (Fields text)")
  then show "wrapText text maxWidth \<noteq> []"
    by (simp add: wrapText_def Let_def)
next
  show "\<exists>ds. RenderEvents events = Inr ds"
    unfolding RenderEvents_def by (rule display_loop_no_panic)
qed

section \<open>Properties of the fitting loop\<close>

text \<open>The loop from any state, with \<open>cost\<close> standing for the rows the loop computes for an
  event: the wrapped lines of its trimmed text at \<open>maxLineLength\<close>, plus one.\<close>

lemma fit_loop_general:
  assumes cost: "\<And>x. cost x = int (length (wrap (TrimSpace (Text x)) maxLineLength)) + 1"
  shows "\<exists>n\<le>length es.
     fit_loop wrap es (sel, tot) = (sel @ take n es, tot + sum_list (map cost (take n es)))
     \<and> (\<forall>k<n. tot + sum_list (map cost (take (Suc k) es)) \<le> maxContentRows \<and> length sel + k < 5)
     \<and> (n < length es \<longrightarrow>
           \<not> (tot + sum_list (map cost (take n es)) + cost (es ! n) \<le> maxContentRows
              \<and> length sel + n < 5))"
proof (induction es arbitrary: sel tot)
  case Nil
  then show ?case by simp
next
  case (Cons e es)
  have step: "fit_loop wrap (e # es) (sel, tot) =
     (if tot + cost e \<le> maxContentRows \<and> length sel < 5
      then fit_loop wrap es (sel @ [e], tot + cost e) else (sel, tot))"
    by (simp add: Let_def cost)
  show ?case
  proof (cases "tot + cost e \<le> maxContentRows \<and> length sel < 5")
    case False
    then show ?thesis unfolding step by (intro exI [of _ 0]) auto
  next
    case True
    from Cons.IH [of "sel @ [e]" "tot + cost e"]
    obtain n where n: "n \<le> length es"
      "fit_loop wrap es (sel @ [e], tot + cost e)
         = ((sel @ [e]) @ take n es, tot + cost e + sum_list (map cost (take n es)))"
      "\<forall>k<n. tot + cost e + sum_list (map cost (take (Suc k) es)) \<le> maxContentRows
             \<and> length (sel @ [e]) + k < 5"
      "n < length es \<longrightarrow>
           \<not> (tot + cost e + sum_list (map cost (take n es)) + cost (es ! n) \<le> maxContentRows
              \<and> length (sel @ [e]) + n < 5)"
      by blast
    show ?thesis
    proof (intro exI [of _ "Suc n"] conjI allI impI)
      show "Suc n \<le> length (e # es)" using n(1) by simp
      show "fit_loop wrap (e # es) (sel, tot) =
        (sel @ take (Suc n) (e # es), tot + sum_list (map cost (take (Suc n) (e # es))))"
        unfolding step using True n(2) by simp
    next
      fix k assume k: "k < Suc n"
      then show "tot + sum_list (map cost (take (Suc k) (e # es))) \<le> maxContentRows"
        using True n(3) by (cases k) (auto simp: add.assoc)
      from k show "length sel + k < 5"
        using True n(3) by (cases k) auto
    next
      assume "Suc n < length (e # es)"
      then show "\<not> (tot + sum_list (map cost (take (Suc n) (e # es)))
                    + cost ((e # es) ! Suc n) \<le> maxContentRows
              \<and> length sel + Suc n < 5)"
        using n(4) by (auto simp: add.assoc)
    qed
  qed
qed

lemma moon_landing_wrapped:
  "wrapText (TrimSpace (runes ''Moon landing'')) maxLineLength = [runes ''Moon landing'']"
  by (simp add: wrapText_def TrimSpace_def runes_def isSpace_def maxLineLength_def prefixDisplayLength_def)

lemma apollo_wrapped:
  "wrapText (TrimSpace apollo) maxLineLength
     = [runes ''The Apollo 11 lunar module lands on the Moon and two astronauts'',
        runes ''walk on its surface for the first time'']"
  by (simp add: apollo_def wrapText_def TrimSpace_def Fields_def runes_def isSpace_def
        maxLineLength_def prefixDisplayLength_def)

text \<open>
  Claim C6. The fitting loop accepts a prefix of its input, in input order, an event costing
  the number of wrapped lines of its trimmed text at line length 65, plus one row. With \<open>n\<close>
  the number of accepted events: (1) the accepted events are the first \<open>n\<close> and the row total
  is the sum of their costs; (2) at most 5 are accepted; (3) every accepted event kept the
  running total within the 12 rows; (4) if an event is left, it is the sixth or its cost
  would exceed the 12 rows, and it and all later events are dropped without an error. This
  holds for any wrapping function, so for both copies of the loop. In particular the single
  event 1969, Moon landing, is accepted with one wrapped line and uses 2 rows; and of five
  events of two wrapped lines each, three rows apiece, the first four are accepted, using
  all 12 rows, and the fifth is dropped.
\<close>

theorem fit_loop_greedy:
  "(\<exists>n. n \<le> length events \<and> n \<le> 5
      \<and> fit_loop wrap events ([], 0)
          = (take n events,
             sum_list (map (\<lambda>x. int (length (wrap (TrimSpace (Text x)) maxLineLength)) + 1) (take n events)))
      \<and> (\<forall>k<n. sum_list (map (\<lambda>x. int (length (wrap (TrimSpace (Text x)) maxLineLength)) + 1) (take (Suc k) events))
                 \<le> maxContentRows)
      \<and> sum_list (map (\<lambda>x. int (length (wrap (TrimSpace (Text x)) maxLineLength)) + 1) (take n events)) \<le> maxContentRows
      \<and> (n < length events \<longrightarrow>
            n = 5
            \<or> sum_list (map (\<lambda>x. int (length (wrap (TrimSpace (Text x)) maxLineLength)) + 1) (take (Suc n) events))
               > maxContentRows))
   \<and> maxLineLength = 65 \<and> maxContentRows = 12
   \<and> wrapText (TrimSpace (runes ''Moon landing'')) maxLineLength = [runes ''Moon landing'']
   \<and> fit_loop wrapText [\<lparr>Year = 1969, Text = runes ''Moon landing''\<rparr>] ([], 0)
       = ([\<lparr>Year = 1969, Text = runes ''Moon landing''\<rparr>], 2)
   \<and> length (wrapText (TrimSpace apollo) maxLineLength) = 2
   \<and> fit_loop wrapText five_long_events ([], 0) = (take 4 five_long_events, 12)"
proof (intro conjI)
  define cost :: "Event \<Rightarrow> int"
    where "cost = (\<lambda>x. int (length (wrap (TrimSpace (Text x)) maxLineLength)) + 1)"
  have cost: "cost x = int (length (wrap (TrimSpace (Text x)) maxLineLength)) + 1" for x
    by (simp add: cost_def)
  from fit_loop_general [of cost wrap events "[]" 0, OF cost]
  obtain n where n: "n \<le> length events"
    "fit_loop wrap events ([], 0) = (take n events, sum_list (map cost (take n events)))"
    "\<forall>k<n. sum_list (map cost (take (Suc k) events)) \<le> maxContentRows \<and> k < 5"
    "n < length events \<longrightarrow>
       \<not> (sum_list (map cost (take n events)) + cost (events ! n) \<le> maxContentRows \<and> n < 5)"
    by auto
  have le5: "n \<le> 5"
  proof (cases n)
    case 0
    then show ?thesis by simp
  next
    case (Suc m)
    with n(3) have "m < 5" by simp
    with Suc show ?thesis by simp
  qed
  have total: "sum_list (map cost (take n events)) \<le> maxContentRows"
  proof (cases n)
    case 0
    then show ?thesis by (simp add: maxContentRows_def)
  next
    case (Suc m)
    with n(3) show ?thesis by simp
  qed
  have rest: "n < length events \<longrightarrow>
      n = 5 \<or> sum_list (map cost (take (Suc n) events)) > maxContentRows"
  proof
    assume lt: "n < length events"
    then have "take (Suc n) events = take n events @ [events ! n]"
      by (simp add: take_Suc_conv_app_nth)
    with n(4) lt le5 show "n = 5 \<or> sum_list (map cost (take (Suc n) events)) > maxContentRows"
      by auto
  qed
  from n(1) n(2) n(3) le5 total rest
  have "\<exists>n. n \<le> length events \<and> n \<le> 5
      \<and> fit_loop wrap events ([], 0) = (take n events, sum_list (map cost (take n events)))
      \<and> (\<forall>k<n. sum_list (map cost (take (Suc k) events)) \<le> maxContentRows)
      \<and> sum_list (map cost (take n events)) \<le> maxContentRows
      \<and> (n < length events \<longrightarrow>
            n = 5 \<or> sum_list (map cost (take (Suc n) events)) > maxContentRows)"
    by blast
  then show "\<exists>n. n \<le> length events \<and> n \<le> 5
      \<and> fit_loop wrap events ([], 0)
          = (take n events,
             sum_list (map (\<lambda>x. int (length (wrap (TrimSpace (Text x)) maxLineLength)) + 1) (take n events)))
      \<and> (\<forall>k<n. sum_list (map (\<lambda>x. int (length (wrap (TrimSpace (Text x)) maxLineLength)) + 1) (take (Suc k) events))
                 \<le> maxContentRows)
      \<and> sum_list (map (\<lambda>x. int (length (wrap (TrimSpace (Text x)) maxLineLength)) + 1) (take n events)) \<le> maxContentRows
      \<and> (n < length events \<longrightarrow>
            n = 5
            \<or> sum_list (map (\<lambda>x. int (length (wrap (TrimSpace (Text x)) maxLineLength)) + 1) (take (Suc n) events))
               > maxContentRows)"
    unfolding cost_def .
next
  show "maxLineLength = 65" by (simp add: maxLineLength_def prefixDisplayLength_def)
next
  show "maxContentRows = 12" by (simp add: maxContentRows_def)
next
  show "wrapText (TrimSpace (runes ''Moon landing'')) maxLineLength = [runes ''Moon landing'']"
    by (rule moon_landing_wrapped)
next
  show "fit_loop wrapText [\<lparr>Year = 1969, Text = runes ''Moon landing''\<rparr>] ([], 0)
       = ([\<lparr>Year = 1969, Text = runes ''Moon landing''\<rparr>], 2)"
    by (simp add: moon_landing_wrapped maxContentRows_def)
next
  show "length (wrapText (TrimSpace apollo) maxLineLength) = 2"
    by (simp add: apollo_wrapped)
next
  show "fit_loop wrapText five_long_events ([], 0) = (take 4 five_long_events, 12)"
    by (simp add: five_long_events_def apollo_wrapped maxContentRows_def)
qed

theorem fit_loop_greedy_witness:
  "fit_loop wrapText six_events ([], 0) = (take 5 six_events, 10)
   \<and> fit_loop wrapText five_long_events ([], 0) = (take 4 five_long_events, 12)
   \<and> sum_list (map (\<lambda>x. int (length (wrapText (TrimSpace (Text x)) maxLineLength)) + 1) (take 4 five_long_events)) = 12
   \<and> sum_list (map (\<lambda>x. int (length (wrapText (TrimSpace (Text x)) maxLineLength)) + 1) (take 5 five_long_events)) = 15
   \<and> (\<exists>n. n \<le> length five_long_events \<and> n \<le> 5
      \<and> fit_loop wrapText five_long_events ([], 0)
          = (take n five_long_events,
             sum_list (map (\<lambda>x. int (length (wrapText (TrimSpace (Text x)) maxLineLength)) + 1) (take n five_long_events)))
      \<and> (\<forall>k<n. sum_list (map (\<lambda>x. int (length (wrapText (TrimSpace (Text x)) maxLineLength)) + 1) (take (Suc k) five_long_events))
                 \<le> maxContentRows)
      \<and> sum_list (map (\<lambda>x. int (length (wrapText (TrimSpace (Text x)) maxLineLength)) + 1) (take n five_long_events)) \<le> maxContentRows
      \<and> (n < length five_long_events \<longrightarrow>
            n = 5
            \<or> sum_list (map (\<lambda>x. int (length (wrapText (TrimSpace (Text x)) maxLineLength)) + 1) (take (Suc n) five_long_events))
               > maxContentRows))"
proof -
  have six: "fit_loop wrapText six_events ([], 0) = (take 5 six_events, 10)"
    by (simp add: six_events_def wrapText_def TrimSpace_def runes_def isSpace_def
          maxLineLength_def prefixDisplayLength_def maxContentRows_def)
  have sums: "sum_list (map (\<lambda>x. int (length (wrapText (TrimSpace (Text x)) maxLineLength)) + 1) (take 4 five_long_events)) = 12"
     "sum_list (map (\<lambda>x. int (length (wrapText (TrimSpace (Text x)) maxLineLength)) + 1) (take 5 five_long_events)) = 15"
    by (simp_all add: five_long_events_def apollo_wrapped)
  from fit_loop_greedy [of five_long_events wrapText] six sums show ?thesis by blast
qed

section \<open>Properties of the selection strategies\<close>

text \<open>
  Claim C9. With the shuffle flag off, the strategy oldest-first draws nothing from the
  random generator: its result is the same under any two generator states (two runs on the
  same input give the same output), the generator is handed back untouched, and the result is
  the first five events of the stable sort by year: ascending by year, at most 5 long.
\<close>

theorem oldest_first_deterministic:
  "fst (selectForDisplay g1 False ''oldest-first'' events)
     = fst (selectForDisplay g2 False ''oldest-first'' events)
   \<and> snd (selectForDisplay g1 False ''oldest-first'' events) = g1
   \<and> fst (selectForDisplay g1 False ''oldest-first'' events) = take 5 (sort_key Year events)
   \<and> sorted (map Year (fst (selectForDisplay g1 False ''oldest-first'' events)))
   \<and> length (fst (selectForDisplay g1 False ''oldest-first'' events)) \<le> 5"
proof -
  have one: "length events \<le> 1 \<Longrightarrow> sort_key Year events = events"
    by (cases events) auto
  have eq: "fst (selectForDisplay g False ''oldest-first'' events) = take 5 (sort_key Year events)"
     "snd (selectForDisplay g False ''oldest-first'' events) = g" for g
    using one by (auto simp: selectForDisplay_def applyStrategy_def Let_def)
  have "sorted (take 5 (map Year (sort_key Year events)))"
    by (rule sorted_wrt_take) simp
  then have "sorted (map Year (take 5 (sort_key Year events)))"
    by (simp add: take_map)
  with eq show ?thesis by simp
qed

text \<open>\<^verbatim>\<open>rand.Shuffle\<close> permutes: same elements, same length, whatever the generator yields.\<close>

lemma swap_mset: "i < length xs \<Longrightarrow> j < length xs \<Longrightarrow> mset (swap xs i j) = mset xs"
  unfolding swap_def by (rule mset_swap)

lemma swap_length [simp]: "length (swap xs i j) = length xs"
  by (simp add: swap_def)

lemma shuffle_from_mset:
  "i < length xs \<Longrightarrow> mset (fst (shuffle_from i g xs)) = mset xs"
proof (induction i arbitrary: g xs)
  case 0
  then show ?case by simp
next
  case (Suc i)
  have j: "g 0 mod (Suc i + 1) < length xs"
  proof -
    have "g 0 mod (Suc i + 1) < Suc i + 1" by simp
    with Suc.prems show ?thesis by linarith
  qed
  have "mset (swap xs (Suc i) (g 0 mod (Suc i + 1))) = mset xs"
    using Suc.prems j by (rule swap_mset)
  moreover have "i < length (swap xs (Suc i) (g 0 mod (Suc i + 1)))"
    using Suc.prems by simp
  ultimately show ?case
    using Suc.IH [of "swap xs (Suc i) (g 0 mod (Suc i + 1))" "\<lambda>k. g (Suc k)"]
    by (simp add: Intn_def)
qed

lemma Shuffle_mset: "mset (fst (Shuffle g xs)) = mset xs"
proof (cases xs)
  case Nil
  then show ?thesis by (simp add: Shuffle_def)
next
  case (Cons x xs')
  then have "length xs - 1 < length xs" by simp
  then show ?thesis unfolding Shuffle_def by (rule shuffle_from_mset)
qed

lemma Shuffle_set: "set (fst (Shuffle g xs)) = set xs"
  using Shuffle_mset [of g xs] by (rule mset_eq_setD)

lemma Shuffle_distinct: "distinct (fst (Shuffle g xs)) = distinct xs"
  using Shuffle_mset [of g xs] by (rule mset_eq_imp_distinct_iff)

lemma Shuffle_length: "length (fst (Shuffle g xs)) = length xs"
  using Shuffle_mset [of g xs] by (rule mset_eq_length)

text \<open>The key built by keyFor determines the year and the text: the decimal numeral of the
  year holds no bar, so the key splits at its first bar.\<close>

lemma digit_char_code: "d < 10 \<Longrightarrow> of_char (digit_char d) = 48 + d"
proof -
  assume "d < 10"
  then have "d \<in> {0, 1, 2, 3, 4, 5, 6, 7, 8, 9}" by auto
  then show ?thesis by (auto simp: digit_char_def)
qed

lemma read_show_nat: "read_nat (runes (show_nat n)) = n"
proof (induction n rule: show_nat.induct)
  case (1 n)
  show ?case
  proof (cases "n < 10")
    case True
    then show ?thesis
      by (subst show_nat.simps) (simp add: read_nat_def runes_def digit_char_code)
  next
    case False
    have "n mod 10 < 10" by simp
    with False "1.IH" show ?thesis
      by (subst show_nat.simps) (simp add: read_nat_def runes_def digit_char_code)
  qed
qed

lemma show_nat_digits: "\<forall>r \<in> set (runes (show_nat n)). 48 \<le> r \<and> r \<le> 57"
proof (induction n rule: show_nat.induct)
  case (1 n)
  show ?case
  proof (cases "n < 10")
    case True
    then show ?thesis
      by (subst show_nat.simps) (simp add: runes_def digit_char_code)
  next
    case False
    have "n mod 10 < 10" by simp
    with False "1.IH" show ?thesis
      by (subst show_nat.simps) (auto simp: runes_def digit_char_code)
  qed
qed

lemma show_nat_nonempty: "runes (show_nat n) \<noteq> []"
  by (subst show_nat.simps) (simp add: runes_def)

lemma show_int_inj: "runes (show_int i) = runes (show_int j) \<Longrightarrow> i = j"
proof -
  assume eq: "runes (show_int i) = runes (show_int j)"
  have minus: "runes (CHR ''-'' # s) = 45 # runes s" for s by (simp add: runes_def)
  have hd_digit: "hd (runes (show_nat n)) \<noteq> 45" for n
    using show_nat_digits [of n] show_nat_nonempty [of n]
    by (cases "runes (show_nat n)") auto
  show ?thesis
  proof (cases "i < 0"; cases "j < 0")
    assume "i < 0" "j < 0"
    with eq have "runes (show_nat (nat (- i))) = runes (show_nat (nat (- j)))"
      by (simp add: show_int_def minus)
    then have "read_nat (runes (show_nat (nat (- i)))) = read_nat (runes (show_nat (nat (- j))))" by simp
    then have "nat (- i) = nat (- j)" by (simp add: read_show_nat)
    with \<open>i < 0\<close> \<open>j < 0\<close> show ?thesis by linarith
  next
    assume "i < 0" "\<not> j < 0"
    with eq have "45 # runes (show_nat (nat (- i))) = runes (show_nat (nat j))"
      by (simp add: show_int_def minus)
    with hd_digit [of "nat j"] show ?thesis by (metis list.sel(1))
  next
    assume "\<not> i < 0" "j < 0"
    with eq have "runes (show_nat (nat i)) = 45 # runes (show_nat (nat (- j)))"
      by (simp add: show_int_def minus)
    with hd_digit [of "nat i"] show ?thesis by (metis list.sel(1))
  next
    assume "\<not> i < 0" "\<not> j < 0"
    with eq have "runes (show_nat (nat i)) = runes (show_nat (nat j))"
      by (simp add: show_int_def)
    then have "read_nat (runes (show_nat (nat i))) = read_nat (runes (show_nat (nat j)))" by simp
    then have "nat i = nat j" by (simp add: read_show_nat)
    with \<open>\<not> i < 0\<close> \<open>\<not> j < 0\<close> show ?thesis by linarith
  qed
qed

lemma show_int_no_bar: "124 \<notin> set (runes (show_int i))"
proof -
  have "124 \<notin> set (runes (show_nat n))" for n using show_nat_digits [of n] by auto
  then show ?thesis by (simp add: show_int_def runes_def)
qed

lemma keyFor_inj: "keyFor a = keyFor b \<longleftrightarrow> Year a = Year b \<and> Text a = Text b"
proof
  assume eq: "keyFor a = keyFor b"
  let ?p = "\<lambda>r::nat. r \<noteq> 124"
  have split: "takeWhile ?p (runes (show_int y) @ 124 # t) = runes (show_int y)" for y t
    using show_int_no_bar [of y] by (auto simp: takeWhile_tail)
  from eq have k: "runes (show_int (Year a)) @ 124 # Text a = runes (show_int (Year b)) @ 124 # Text b"
    by (simp add: keyFor_def runes_def)
  then have "takeWhile ?p (runes (show_int (Year a)) @ 124 # Text a)
           = takeWhile ?p (runes (show_int (Year b)) @ 124 # Text b)" by simp
  then have y: "runes (show_int (Year a)) = runes (show_int (Year b))" by (simp only: split)
  with k have "Text a = Text b" by simp
  moreover from y have "Year a = Year b" by (rule show_int_inj)
  ultimately show "Year a = Year b \<and> Text a = Text b" by simp
next
  assume "Year a = Year b \<and> Text a = Text b"
  then show "keyFor a = keyFor b" by (simp add: keyFor_def)
qed

text \<open>Two facts about the era-based selection that hold for every input and every state of
  the generator: at most five events, ascending by year.\<close>

lemma pick_loop_length:
  "length (selected st) < 5 \<Longrightarrow> length (selected (pick_loop allEvents eraEvents q qi st)) \<le> 5"
proof (induction allEvents eraEvents q qi st rule: pick_loop.induct)
  case (1 allEvents eraEvents q qi st)
  define st' where "st' = (if keyFor (allEvents ! (eraEvents ! qi)) \<notin> seen st
         then st\<lparr>selected := selected st @ [allEvents ! (eraEvents ! qi)],
                 seen := insert (keyFor (allEvents ! (eraEvents ! qi))) (seen st)\<rparr>
         else st)"
  have len: "length (selected st') \<le> 5" using "1.prems" by (simp add: st'_def)
  show ?case
  proof (cases "qi < q \<and> qi < length eraEvents")
    case False
    with "1.prems" show ?thesis by (subst pick_loop.simps) auto
  next
    case True
    show ?thesis
    proof (cases "5 \<le> length (selected st')")
      case full: True
      with True len show ?thesis
        by (subst pick_loop.simps) (simp add: st'_def Let_def)
    next
      case more: False
      then have "length (selected st') < 5" by simp
      from "1.IH" [OF True refl refl st'_def more this] True more
      show ?thesis by (subst pick_loop.simps) (simp add: st'_def Let_def)
    qed
  qed
qed

lemma era_loop_length:
  "length (selected st) < 5 \<Longrightarrow> length (selected (fst (era_loop allEvents es g st))) \<le> 5"
proof (induction es arbitrary: g st)
  case Nil
  then show ?case by simp
next
  case (Cons era es)
  let ?idx = "filter (\<lambda>i. minYear era \<le> Year (allEvents ! i) \<and> Year (allEvents ! i) \<le> maxYear era)
                [0..<length allEvents]"
  show ?case
  proof (cases "length ?idx = 0")
    case True
    with Cons show ?thesis by simp
  next
    case False
    obtain shuffled g' where sh: "Shuffle g ?idx = (shuffled, g')" by (cases "Shuffle g ?idx")
    let ?st = "pick_loop allEvents shuffled (quota era) 0 st"
    have le: "length (selected ?st) \<le> 5" using Cons.prems by (rule pick_loop_length)
    show ?thesis
    proof (cases "5 \<le> length (selected ?st)")
      case True
      with False sh le show ?thesis by (simp add: Let_def)
    next
      case more: False
      then have "length (selected ?st) < 5" by simp
      from Cons.IH [OF this, of g'] False sh more show ?thesis by (simp add: Let_def)
    qed
  qed
qed

lemma fill_remaining_length:
  "length (selected st) \<le> 5 \<Longrightarrow> length (fst (fill_remaining allEvents g st)) \<le> 5"
  by (auto simp: fill_remaining_def Let_def split: prod.splits)

lemma selectEventsByEra_length: "length (fst (selectEventsByEra g allEvents)) \<le> 5"
proof (cases "length allEvents = 0")
  case True
  then show ?thesis by (simp add: selectEventsByEra_def)
next
  case False
  obtain st g1 where e: "era_loop allEvents eras g \<lparr>selected = [], seen = {}\<rparr> = (st, g1)"
    by (cases "era_loop allEvents eras g \<lparr>selected = [], seen = {}\<rparr>")
  have "length (selected st) \<le> 5"
    using era_loop_length [of "\<lparr>selected = [], seen = {}\<rparr>" allEvents eras g] e by simp
  from fill_remaining_length [OF this, of allEvents g1] False e show ?thesis
    by (cases "fill_remaining allEvents g1 st") (simp add: selectEventsByEra_def)
qed

lemma selectEventsByEra_sorted: "sorted (map Year (fst (selectEventsByEra g allEvents)))"
  by (simp add: selectEventsByEra_def split: prod.splits)

lemma Shuffle_pair:
  "\<exists>g'. Shuffle g [a, b] = ([a, b], g') \<or> Shuffle g [a, b] = ([b, a], g')"
proof -
  have "g 0 mod Suc (Suc 0) = 0 \<or> g 0 mod Suc (Suc 0) = Suc 0" by arith
  then show ?thesis
    by (auto simp: Shuffle_def Intn_def swap_def)
qed

text \<open>On an input without two equal events the selection has none either: the era pass
  keeps \<open>keys_ok\<close>, and the filling pass takes events at different positions whose keys are
  not in \<open>seen\<close>.\<close>

lemma pick_loop_keys_ok:
  "keys_ok st \<Longrightarrow> keys_ok (pick_loop allEvents eraEvents q qi st)"
proof (induction allEvents eraEvents q qi st rule: pick_loop.induct)
  case (1 allEvents eraEvents q qi st)
  define st' where "st' = (if keyFor (allEvents ! (eraEvents ! qi)) \<notin> seen st
         then st\<lparr>selected := selected st @ [allEvents ! (eraEvents ! qi)],
                 seen := insert (keyFor (allEvents ! (eraEvents ! qi))) (seen st)\<rparr>
         else st)"
  have ok: "keys_ok st'" using "1.prems" by (auto simp: st'_def keys_ok_def)
  show ?case
  proof (cases "qi < q \<and> qi < length eraEvents")
    case False
    with "1.prems" show ?thesis by (subst pick_loop.simps) auto
  next
    case True
    show ?thesis
    proof (cases "5 \<le> length (selected st')")
      case full: True
      with True ok show ?thesis
        by (subst pick_loop.simps) (simp add: st'_def Let_def)
    next
      case more: False
      from "1.IH" [OF True refl refl st'_def more ok] True more
      show ?thesis by (subst pick_loop.simps) (simp add: st'_def Let_def)
    qed
  qed
qed

lemma era_loop_keys_ok:
  "keys_ok st \<Longrightarrow> keys_ok (fst (era_loop allEvents es g st))"
proof (induction es arbitrary: g st)
  case Nil
  then show ?case by simp
next
  case (Cons era es)
  let ?idx = "filter (\<lambda>i. minYear era \<le> Year (allEvents ! i) \<and> Year (allEvents ! i) \<le> maxYear era)
                [0..<length allEvents]"
  show ?case
  proof (cases "length ?idx = 0")
    case True
    with Cons show ?thesis by simp
  next
    case False
    obtain shuffled g' where sh: "Shuffle g ?idx = (shuffled, g')" by (cases "Shuffle g ?idx")
    let ?st = "pick_loop allEvents shuffled (quota era) 0 st"
    have ok: "keys_ok ?st" using Cons.prems by (rule pick_loop_keys_ok)
    show ?thesis
    proof (cases "5 \<le> length (selected ?st)")
      case True
      with False sh ok show ?thesis by (simp add: Let_def)
    next
      case more: False
      from Cons.IH [OF ok, of g'] False sh more show ?thesis by (simp add: Let_def)
    qed
  qed
qed

lemma map_nth_take: "n \<le> length xs \<Longrightarrow> map (\<lambda>i. f (xs ! i)) [0..<n] = map f (take n xs)"
  by (simp add: list_eq_iff_nth_eq)

lemma fill_remaining_keys:
  assumes all: "distinct (map keyFor allEvents)" and ok: "keys_ok st"
  shows "distinct (map keyFor (fst (fill_remaining allEvents g st)))"
proof -
  let ?rem = "filter (\<lambda>i. keyFor (allEvents ! i) \<notin> seen st) [0..<length allEvents]"
  obtain shuffled g' where sh: "Shuffle g ?rem = (shuffled, g')" by (cases "Shuffle g ?rem")
  have set_sh: "set shuffled = set ?rem" using Shuffle_set [of g ?rem] sh by simp
  have dist_sh: "distinct shuffled" using Shuffle_distinct [of g ?rem] sh by simp
  let ?k = "\<lambda>i. keyFor (allEvents ! i)"
  have inj: "inj_on ?k (set shuffled)"
  proof (rule inj_onI)
    fix i j assume "i \<in> set shuffled" "j \<in> set shuffled" "?k i = ?k j"
    with set_sh have "i < length (map keyFor allEvents)" "j < length (map keyFor allEvents)"
      "map keyFor allEvents ! i = map keyFor allEvents ! j" by auto
    with all show "i = j" by (simp add: nth_eq_iff_index_eq del: length_map nth_map)
  qed
  have new: "distinct (map ?k (take n shuffled))" for n
  proof -
    have "inj_on ?k (set (take n shuffled))"
      using inj by (rule inj_on_subset) (rule set_take_subset)
    with dist_sh show ?thesis by (simp add: distinct_map)
  qed
  have fresh: "?k i \<notin> keyFor ` set (selected st)" if "i \<in> set (take n shuffled)" for i n
  proof -
    from that have "i \<in> set shuffled" by (rule in_set_takeD)
    with set_sh have "?k i \<notin> seen st" by simp
    with ok show ?thesis by (auto simp: keys_ok_def)
  qed
  have app: "distinct (map keyFor (selected st @ map (\<lambda>i. allEvents ! (shuffled ! i)) [0..<n]))"
    if "n \<le> length shuffled" for n
  proof -
    have "map (\<lambda>i. allEvents ! (shuffled ! i)) [0..<n] = map (\<lambda>i. allEvents ! i) (take n shuffled)"
      using that by (rule map_nth_take)
    moreover have "distinct (map keyFor (selected st))" using ok by (simp add: keys_ok_def)
    moreover have "set (map keyFor (selected st)) \<inter> set (map ?k (take n shuffled)) = {}"
      using fresh [of _ n] by (auto simp: image_iff) metis
    ultimately show ?thesis using new [of n] by (simp add: o_def)
  qed
  have sel: "distinct (map keyFor (selected st))" using ok by (simp add: keys_ok_def)
  show ?thesis
    using sh sel app [of "length shuffled"] app [of "5 - length (selected st)"]
    by (auto simp: fill_remaining_def Let_def)
qed

lemma selectEventsByEra_keys:
  assumes "distinct (map keyFor allEvents)"
  shows "distinct (map keyFor (fst (selectEventsByEra g allEvents)))"
proof (cases "length allEvents = 0")
  case True
  then show ?thesis by (simp add: selectEventsByEra_def)
next
  case False
  obtain st g1 where e: "era_loop allEvents eras g \<lparr>selected = [], seen = {}\<rparr> = (st, g1)"
    by (cases "era_loop allEvents eras g \<lparr>selected = [], seen = {}\<rparr>")
  have "keys_ok \<lparr>selected = [], seen = {}\<rparr>" by (simp add: keys_ok_def)
  then have "keys_ok (fst (era_loop allEvents eras g \<lparr>selected = [], seen = {}\<rparr>))"
    by (rule era_loop_keys_ok)
  with e have ok: "keys_ok st" by simp
  obtain sel g2 where f: "fill_remaining allEvents g1 st = (sel, g2)"
    by (cases "fill_remaining allEvents g1 st")
  have d: "distinct (map keyFor sel)"
    using fill_remaining_keys [OF assms ok, of g1] f by simp
  have "mset (map keyFor (sort_key Year sel)) = mset (map keyFor sel)" by simp
  then have "distinct (map keyFor (sort_key Year sel)) = distinct (map keyFor sel)"
    by (rule mset_eq_imp_distinct_iff)
  with d False e f show ?thesis by (simp add: selectEventsByEra_def)
qed

lemma distinct_keys_pairs:
  "distinct (map keyFor xs) = distinct (map (\<lambda>x. (Year x, Text x)) xs)"
proof -
  have "inj_on keyFor (set xs) = inj_on (\<lambda>x. (Year x, Text x)) (set xs)"
    by (simp add: inj_on_def keyFor_inj)
  then show ?thesis by (simp add: distinct_map)
qed

lemma selectEventsByEra_distinct:
  assumes "distinct (map (\<lambda>x. (Year x, Text x)) allEvents)"
  shows "distinct (map (\<lambda>x. (Year x, Text x)) (fst (selectEventsByEra g allEvents)))"
  using assms selectEventsByEra_keys [of allEvents g] by (simp add: distinct_keys_pairs)

text \<open>
  Claim C1. The era-based selection returns at most 5 events, sorted ascending by year, with
  no two events of the same year and text. The first two parts hold for every input (lemmas
  \<open>selectEventsByEra_length\<close> and \<open>selectEventsByEra_sorted\<close>), the third for every input
  without equal events (lemma \<open>selectEventsByEra_distinct\<close>). It fails otherwise: the era pass
  guards each append by \<open>seen\<close> and records the key, the filling pass keeps every index whose
  key is not yet in \<open>seen\<close> and records nothing, so two equal events that the era pass left
  out are both taken. For two copies of one event of the year 44 BC, which no era covers, the
  result is both copies, whatever the generator yields.
\<close>

theorem selectEventsByEra_duplicates:
  "fst (selectEventsByEra g [\<lparr>Year = - 44, Text = runes ''Caesar''\<rparr>, \<lparr>Year = - 44, Text = runes ''Caesar''\<rparr>])
     = [\<lparr>Year = - 44, Text = runes ''Caesar''\<rparr>, \<lparr>Year = - 44, Text = runes ''Caesar''\<rparr>]
   \<and> \<not> distinct (map (\<lambda>x. (Year x, Text x))
         (fst (selectEventsByEra g [\<lparr>Year = - 44, Text = runes ''Caesar''\<rparr>, \<lparr>Year = - 44, Text = runes ''Caesar''\<rparr>])))"
proof -
  obtain g' where "Shuffle g [0::nat, 1] = ([0, 1], g') \<or> Shuffle g [0::nat, 1] = ([1, 0], g')"
    using Shuffle_pair [of g "0::nat" 1] by blast
  then have "fst (selectEventsByEra g [\<lparr>Year = - 44, Text = runes ''Caesar''\<rparr>, \<lparr>Year = - 44, Text = runes ''Caesar''\<rparr>])
     = [\<lparr>Year = - 44, Text = runes ''Caesar''\<rparr>, \<lparr>Year = - 44, Text = runes ''Caesar''\<rparr>]"
    by (auto simp: selectEventsByEra_def eras_def fill_remaining_def Let_def)
  then show ?thesis by simp
qed

section \<open>Properties of FetchOnThisDay\<close>

lemma sleeps_append [simp]: "sleeps (xs @ ys) = sleeps xs @ sleeps ys"
  by (simp add: sleeps_def)

lemma requests_append [simp]: "requests (xs @ ys) = requests xs @ requests ys"
  by (simp add: requests_def)

lemma cacheWrites_append [simp]: "cacheWrites (xs @ ys) = cacheWrites xs @ cacheWrites ys"
  by (simp add: cacheWrites_def)

lemma requests_Nil [simp]: "requests [] = []" by (simp add: requests_def)

lemma tryCache_trace [simp]:
  "sleeps (snd (tryCache cp c e f)) = []"
  "requests (snd (tryCache cp c e f)) = []"
  "cacheWrites (snd (tryCache cp c e f)) = []"
  by (auto simp: tryCache_def sleeps_def requests_def cacheWrites_def split: option.splits sum.splits)

lemma attempt_once_sleeps [simp]: "sleeps (snd (attempt_once cp e url cf bp k)) = []"
  by (auto simp: attempt_once_def sleeps_def cacheWrite_def split: option.splits sum.splits http_outcome.splits copy.splits)

lemma attempt_once_guarded [simp]: "cacheWrites (snd (attempt_once Later e url cf True k)) = []"
  by (auto simp: attempt_once_def cacheWrites_def cacheWrite_def split: option.splits sum.splits http_outcome.splits)

lemma sleepContext_writes [simp]: "cacheWrites (snd (sleepContext e k d)) = []"
  "requests (snd (sleepContext e k d)) = []"
  by (auto simp: sleepContext_def cacheWrites_def requests_def split: option.splits)

lemma attempts_guarded:
  "cacheWrites (snd (attempts Later e url cf True attempt backoff lastErr tr)) = cacheWrites tr"
proof (induction Later e url cf True attempt backoff lastErr tr rule: attempts.induct)
  case (1 e url cf attempt backoff lastErr tr)
  show ?case
  proof (cases "attempt_once Later e url cf True attempt")
    case (Pair r fx)
    have fx: "cacheWrites fx = []" using attempt_once_guarded [of e url cf attempt] Pair by simp
    show ?thesis
    proof (cases "sleepContext e attempt backoff")
      case sc: (Pair cerr sx)
      have sx: "cacheWrites sx = []" using sleepContext_writes(1) [of e attempt backoff] sc by simp
      show ?thesis
        using 1 Pair sc fx sx
        by (subst attempts.simps) (auto split: attempt_result.splits option.splits)
    qed
  qed
qed

lemma cacheWrite_writes:
  "cacheWrites (cacheWrite Later e cacheFile bypassCache body)
     = (if bypassCache then [] else [(cacheFile, body)])"
  "cacheWrites (cacheWrite Earlier e cacheFile bypassCache body) = [(cacheFile, body)]"
  by (auto simp: cacheWrite_def cacheWrites_def split: option.splits)

text \<open>The later copy keeps the promise: with \<open>bypassCache\<close> set it never calls
  writeCacheFileAtomic, whatever the environment does.\<close>

lemma Later_bypass_no_write:
  "cacheWrites (snd (FetchOnThisDay Later c e month day True)) = []"
proof -
  have "cacheWrites [] = []" by (simp add: cacheWrites_def)
  then show ?thesis by (simp add: FetchOnThisDay_def attempts_guarded)
qed

text \<open>
  Claim C2. A call with \<open>bypassCache = true\<close> that succeeds over the network writes nothing to
  the cache. The later copy of FetchOnThisDay does so (lemma above). The earlier copy writes
  the body whatever the flag says: with the flag set, a server answering 200 and a body that
  parses, its trace holds the cache write.
\<close>

theorem Earlier_bypass_writes_cache:
  "FetchOnThisDay Earlier sample_client (quiet 200 ''{}'' [] 0) ''07'' ''20'' True
     = (Inr [], [Request 1 ''https://api.wikimedia.org/feed/v1/wikipedia/en/onthisday/all/07/20'',
                 WriteCache ''.cache/wikimedia/onthisday_07_20.json'' ''{}''])"
  by (simp add: FetchOnThisDay_def attempts.simps attempt_once_def quiet_def sample_client_def
        maxAttempts_def parseEventsFromBody_def cacheWrite_def cacheFileOf_def urlOf_def)

lemma show_int_samples: "show_int 201 = ''201''" "show_int 503 = ''503''"
  by (simp_all add: show_int_def show_nat.simps digit_char_def)

lemma parseEventsFromBody_eq: "parseEventsFromBody e body = (case unmarshal e body of Inl err \<Rightarrow> Inl (''failed to parse JSON: '' @ err) | Inr evs \<Rightarrow> Inr evs)"
proof -
  have "map (\<lambda>x. \<lparr>Year = Year x, Text = Text x\<rparr>) evs = evs" for evs :: "Event list"
    by (rule map_idI) simp
  then show ?thesis by (simp add: parseEventsFromBody_def split: sum.splits)
qed

text \<open>
  Claim C3, as stated: every response with a status in the 2xx range is parsed and its events
  returned. The code tests \<^verbatim>\<open>resp.StatusCode == http.StatusOK\<close>: a 201 whose body would parse
  is answered with the status error.
\<close>

theorem status_201_counterexample:
  "fst (FetchOnThisDay Later sample_client
          (quiet 201 ''{}'' [\<lparr>Year = 1969, Text = runes ''Moon landing''\<rparr>] 0) ''07'' ''20'' False)
     = Inl ''API returned status code: 201, body: {}''
   \<and> unmarshal (quiet 201 ''{}'' [\<lparr>Year = 1969, Text = runes ''Moon landing''\<rparr>] 0) ''{}''
     = Inr [\<lparr>Year = 1969, Text = runes ''Moon landing''\<rparr>]
   \<and> fst (FetchOnThisDay Later sample_client
          (quiet 201 ''{}'' [\<lparr>Year = 1969, Text = runes ''Moon landing''\<rparr>] 0) ''07'' ''20'' False)
     \<noteq> Inr [\<lparr>Year = 1969, Text = runes ''Moon landing''\<rparr>]"
  by (simp add: FetchOnThisDay_def attempts.simps attempt_once_def quiet_def sample_client_def
        maxAttempts_def cacheFileOf_def urlOf_def tryCache_def show_int_samples)

text \<open>
  Claim C3, amended. When an attempt of the retry loop (in either copy, at any attempt up to
  the third, whatever the backoff and the trace so far) is answered with status 200, the
  body is parsed and the call returns the parsed events, or the parse error; so does
  FetchOnThisDay when its first request is answered with 200. Any other status of the 2xx
  range ends the call at once with the status error that quotes the body, the request of
  that attempt being the last effect: no sleep, no retry, no cache write.
\<close>

theorem status_200_success:
  assumes "attempt \<le> maxAttempts" and "newRequestErr e url = None"
    and "send e attempt = Response status body"
  shows "(status = 200 \<longrightarrow>
            fst (attempts cp e url cf bp attempt backoff lastErr tr)
              = (case unmarshal e body of
                   Inl err \<Rightarrow> Inl (''failed to parse JSON: '' @ err)
                 | Inr evs \<Rightarrow> Inr evs))
       \<and> (200 \<le> status \<and> status < 300 \<and> status \<noteq> 200 \<longrightarrow>
            attempts cp e url cf bp attempt backoff lastErr tr
              = (Inl (''API returned status code: '' @ show_int status @ '', body: '' @ body),
                 tr @ [Request attempt url]))
       \<and> (status = 200 \<and> attempt = 1 \<and> url = urlOf month day \<and> month \<noteq> [] \<and> day \<noteq> []
            \<and> (bypassCache \<or> fst (tryCache cp c e (cacheFileOf c month day)) = None) \<longrightarrow>
            fst (FetchOnThisDay cp c e month day bypassCache)
              = (case unmarshal e body of
                   Inl err \<Rightarrow> Inl (''failed to parse JSON: '' @ err)
                 | Inr evs \<Rightarrow> Inr evs))"
proof -
  have ok: "fst (attempts cp e url cf bp attempt backoff lastErr tr)
              = (case unmarshal e body of
                   Inl err \<Rightarrow> Inl (''failed to parse JSON: '' @ err)
                 | Inr evs \<Rightarrow> Inr evs)" if "status = 200" for cf bp backoff lastErr tr
    using assms that
    by (subst attempts.simps) (auto simp: attempt_once_def parseEventsFromBody_eq split: sum.splits)
  have other: "attempts cp e url cf bp attempt backoff lastErr tr
              = (Inl (''API returned status code: '' @ show_int status @ '', body: '' @ body),
                 tr @ [Request attempt url])" if "200 \<le> status" "status < 300" "status \<noteq> 200"
    using assms that by (subst attempts.simps) (auto simp: attempt_once_def)
  have top: "fst (FetchOnThisDay cp c e month day bypassCache)
              = (case unmarshal e body of
                   Inl err \<Rightarrow> Inl (''failed to parse JSON: '' @ err)
                 | Inr evs \<Rightarrow> Inr evs)"
    if "status = 200" "attempt = 1" "url = urlOf month day" "month \<noteq> []" "day \<noteq> []"
       "bypassCache \<or> fst (tryCache cp c e (cacheFileOf c month day)) = None"
  proof (cases bypassCache)
    case True
    with that ok [of "cacheFileOf c month day" True "500 * millisecond" None "[]"]
    show ?thesis by (simp add: FetchOnThisDay_def)
  next
    case False
    with that obtain cx where "tryCache cp c e (cacheFileOf c month day) = (None, cx)"
      by (cases "tryCache cp c e (cacheFileOf c month day)") simp
    with False that ok [of "cacheFileOf c month day" False "500 * millisecond" None cx]
    show ?thesis by (simp add: FetchOnThisDay_def)
  qed
  show ?thesis
  proof (intro conjI impI)
    assume "status = 200"
    then show "fst (attempts cp e url cf bp attempt backoff lastErr tr)
              = (case unmarshal e body of
                   Inl err \<Rightarrow> Inl (''failed to parse JSON: '' @ err)
                 | Inr evs \<Rightarrow> Inr evs)" by (rule ok)
  next
    assume "200 \<le> status \<and> status < 300 \<and> status \<noteq> 200"
    then show "attempts cp e url cf bp attempt backoff lastErr tr
              = (Inl (''API returned status code: '' @ show_int status @ '', body: '' @ body),
                 tr @ [Request attempt url])" using other by simp
  next
    assume "status = 200 \<and> attempt = 1 \<and> url = urlOf month day \<and> month \<noteq> [] \<and> day \<noteq> []
            \<and> (bypassCache \<or> fst (tryCache cp c e (cacheFileOf c month day)) = None)"
    then show "fst (FetchOnThisDay cp c e month day bypassCache)
              = (case unmarshal e body of
                   Inl err \<Rightarrow> Inl (''failed to parse JSON: '' @ err)
                 | Inr evs \<Rightarrow> Inr evs)" using top by simp
  qed
qed

theorem status_200_success_witness:
  "fst (FetchOnThisDay Later sample_client
          (quiet 200 ''{}'' [\<lparr>Year = 1969, Text = runes ''Moon landing''\<rparr>] 0) ''07'' ''20'' False)
     = Inr [\<lparr>Year = 1969, Text = runes ''Moon landing''\<rparr>]
   \<and> attempts Later (quiet 204 [] [] 0) (urlOf ''07'' ''20'') ''f'' False 2 (1000 * millisecond) None []
     = (Inl ''API returned status code: 204, body: '', [Request 2 (urlOf ''07'' ''20'')])"
proof -
  let ?e = "quiet 200 ''{}'' [\<lparr>Year = 1969, Text = runes ''Moon landing''\<rparr>] 0"
  have a1: "1 \<le> maxAttempts" and a2: "2 \<le> maxAttempts" by (simp_all add: maxAttempts_def)
  have b: "newRequestErr ?e (urlOf ''07'' ''20'') = None"
          "newRequestErr (quiet 204 [] [] 0) (urlOf ''07'' ''20'') = None"
    by (simp_all add: quiet_def)
  have s: "send ?e 1 = Response 200 ''{}''" "send (quiet 204 [] [] 0) 2 = Response 204 []"
    by (simp_all add: quiet_def)
  have miss: "fst (tryCache Later sample_client ?e (cacheFileOf sample_client ''07'' ''20'')) = None"
    by (simp add: tryCache_def quiet_def)
  have u: "unmarshal ?e ''{}'' = Inr [\<lparr>Year = 1969, Text = runes ''Moon landing''\<rparr>]"
    by (simp add: quiet_def)
  have sh: "show_int 204 = ''204''" by (simp add: show_int_def show_nat.simps digit_char_def)
  from status_200_success [OF a1 b(1) s(1), of Later "''f''" False 0 None "[]" "''07''" "''20''" False sample_client]
       status_200_success [OF a2 b(2) s(2), of Later "''f''" False "1000 * millisecond" None "[]"]
       miss u sh
  show ?thesis by simp
qed

lemma attempts_sleeps:
  "\<exists>n\<le>maxAttempts - attempt.
     sleeps (snd (attempts cp e url cf bp attempt backoff lastErr tr))
       = sleeps tr @ map (\<lambda>i. backoff * 2 ^ i + jitter (int63 e (attempt + i))) [0..<n]"
proof (induction cp e url cf bp attempt backoff lastErr tr rule: attempts.induct)
  case (1 cp e url cf bp attempt backoff lastErr tr)
  obtain r fx where once: "attempt_once cp e url cf bp attempt = (r, fx)"
    by (cases "attempt_once cp e url cf bp attempt")
  have fx: "sleeps fx = []" using attempt_once_sleeps [of cp e url cf bp attempt] once by simp
  consider (stop) "\<not> attempt \<le> maxAttempts"
    | (ret) res where "attempt \<le> maxAttempts" "r = Return res"
    | (last) err where "attempt \<le> maxAttempts" "r = Transient err" "\<not> attempt < maxAttempts"
    | (cancel) err cerr where "attempt < maxAttempts" "r = Transient err" "ctxDone e attempt = Some cerr"
    | (retry) err where "attempt < maxAttempts" "r = Transient err" "ctxDone e attempt = None"
    by (cases r; cases "ctxDone e attempt") force+
  then show ?case
  proof cases
    case stop
    then show ?thesis by (subst attempts.simps) (auto intro: exI [of _ 0])
  next
    case ret
    with once fx show ?thesis by (subst attempts.simps) (auto intro: exI [of _ 0])
  next
    case last
    with once fx show ?thesis by (subst attempts.simps) (auto intro: exI [of _ 0])
  next
    case cancel
    with once fx show ?thesis
      by (subst attempts.simps) (auto intro!: exI [of _ 0] simp: sleepContext_def sleeps_def)
  next
    case retry
    let ?sx = "[Slept (backoff + jitter (int63 e attempt))]"
    have sc: "sleepContext e attempt backoff = (None, ?sx)"
      using retry by (simp add: sleepContext_def)
    from "1" [OF _ once [symmetric] retry(2) retry(1) sc [symmetric] refl] retry(1)
    obtain n where n: "n \<le> maxAttempts - (attempt + 1)"
      "sleeps (snd (attempts cp e url cf bp (attempt + 1) (backoff * 2) (Some err) (tr @ fx @ ?sx)))
         = sleeps (tr @ fx @ ?sx) @ map (\<lambda>i. backoff * 2 * 2 ^ i + jitter (int63 e (attempt + 1 + i))) [0..<n]"
      by auto
    have unfold: "attempts cp e url cf bp attempt backoff lastErr tr
        = attempts cp e url cf bp (attempt + 1) (backoff * 2) (Some err) (tr @ fx @ ?sx)"
      using retry once sc by (subst attempts.simps) simp
    have "map (\<lambda>i. backoff * 2 ^ i + jitter (int63 e (attempt + i))) [0..<Suc n]
        = (backoff + jitter (int63 e attempt))
          # map (\<lambda>i. backoff * 2 * 2 ^ i + jitter (int63 e (attempt + 1 + i))) [0..<n]"
      by (simp add: upt_conv_Cons map_Suc_upt [symmetric] del: upt_Suc)
    with n fx unfold retry(1) show ?thesis
      by (intro exI [of _ "Suc n"]) (auto simp: sleeps_def)
  qed
qed

text \<open>
  Claim C4, as stated: a retry sleep lasts the backoff plus the drawn jitter, which ranges
  from minus 100 ms to plus 100 ms. sleepContext replaces a negative jitter by zero: when the
  generator yields 0, the drawn jitter is minus 100 ms, and the two sleeps last 500 ms and
  1 s, not 400 ms and 900 ms.
\<close>

theorem jitter_counterexample:
  "sleeps (snd (FetchOnThisDay Later sample_client (quiet 503 [] [] 0) ''07'' ''20'' True))
     = [500000000, 1000000000]
   \<and> [500 * millisecond + spec_jitter 0, 1000 * millisecond + spec_jitter 0] = [400000000, 900000000]
   \<and> sleeps (snd (FetchOnThisDay Later sample_client (quiet 503 [] [] 0) ''07'' ''20'' True))
     \<noteq> [500 * millisecond + spec_jitter 0, 1000 * millisecond + spec_jitter 0]"
  by (simp add: FetchOnThisDay_def attempts.simps attempt_once_def quiet_def sample_client_def
        maxAttempts_def sleepContext_def jitter_def spec_jitter_def millisecond_def sleeps_def
        cacheFileOf_def urlOf_def)

text \<open>
  Claim C4, amended. The completed sleeps of a call are, in order, an initial part of: 500 ms
  plus jitter, 1 s plus jitter (the backoff starts at 500 ms and doubles after every retry;
  with three attempts there are at most two sleeps). The jitter added is the value drawn
  from the range from minus 100 ms to plus 100 ms with the negative values replaced by zero,
  so every sleep lasts at least the backoff and less than the backoff plus 100 ms.
\<close>

theorem backoff_sleeps:
  "(\<exists>n\<le>2. sleeps (snd (FetchOnThisDay cp c e month day bypassCache))
       = take n [500 * millisecond + jitter (int63 e 1), 1000 * millisecond + jitter (int63 e 2)])
   \<and> jitter raw = max 0 (int (raw mod nat (200 * millisecond)) - 100 * millisecond)
   \<and> 0 \<le> jitter raw \<and> jitter raw < 100 * millisecond"
proof (intro conjI)
  have nil: "sleeps [] = []" by (simp add: sleeps_def)
  have loop: "\<exists>n\<le>2. sleeps (snd (attempts cp e url cf bypassCache 1 (500 * millisecond) None tr))
       = sleeps tr @ take n [500 * millisecond + jitter (int63 e 1), 1000 * millisecond + jitter (int63 e 2)]"
    for url cf tr
  proof -
    from attempts_sleeps [of 1 cp e url cf bypassCache "500 * millisecond" None tr]
    obtain n where n: "n \<le> 2"
      "sleeps (snd (attempts cp e url cf bypassCache 1 (500 * millisecond) None tr))
        = sleeps tr @ map (\<lambda>i. 500 * millisecond * 2 ^ i + jitter (int63 e (1 + i))) [0..<n]"
      by (auto simp: maxAttempts_def)
    from n(1) consider "n = 0" | "n = 1" | "n = 2" by linarith
    then have "map (\<lambda>i. 500 * millisecond * 2 ^ i + jitter (int63 e (1 + i))) [0..<n]
        = take n [500 * millisecond + jitter (int63 e 1), 1000 * millisecond + jitter (int63 e 2)]"
      by cases (simp_all add: upt_rec numeral_2_eq_2)
    with n show ?thesis by auto
  qed
  show "\<exists>n\<le>2. sleeps (snd (FetchOnThisDay cp c e month day bypassCache))
       = take n [500 * millisecond + jitter (int63 e 1), 1000 * millisecond + jitter (int63 e 2)]"
  proof (cases "month = [] \<or> day = []")
    case True
    then show ?thesis by (auto simp: FetchOnThisDay_def nil intro!: exI [of _ 0])
  next
    case False
    obtain hit cx where hc: "(if \<not> bypassCache then tryCache cp c e (cacheFileOf c month day) else (None, [])) = (hit, cx)"
      by (cases "if \<not> bypassCache then tryCache cp c e (cacheFileOf c month day) else (None, [])")
    have cx: "sleeps cx = []"
      using hc tryCache_trace(1) [of cp c e "cacheFileOf c month day"] nil
      by (cases bypassCache) auto
    show ?thesis
    proof (cases hit)
      case (Some evs)
      with False hc cx show ?thesis by (auto simp: FetchOnThisDay_def intro!: exI [of _ 0])
    next
      case None
      with False hc cx loop [of "urlOf month day" "cacheFileOf c month day" cx]
      show ?thesis by (auto simp: FetchOnThisDay_def)
    qed
  qed
next
  show "jitter raw = max 0 (int (raw mod nat (200 * millisecond)) - 100 * millisecond)"
    by (auto simp: jitter_def Let_def)
  show "0 \<le> jitter raw" by (auto simp: jitter_def Let_def)
  show "jitter raw < 100 * millisecond" by (auto simp: jitter_def millisecond_def Let_def)
qed

theorem backoff_sleeps_witness:
  "(\<exists>n\<le>2. sleeps (snd (FetchOnThisDay Later sample_client (quiet 503 [] [] 150000000) ''07'' ''20'' True))
       = take n [550000000, 1050000000])
   \<and> jitter 150000000 = 50000000
   \<and> sleeps (snd (FetchOnThisDay Later sample_client (quiet 503 [] [] 150000000) ''07'' ''20'' True))
       = [550000000, 1050000000]"
proof -
  have j: "jitter 150000000 = 50000000" by (simp add: jitter_def millisecond_def)
  have i: "int63 (quiet 503 [] [] 150000000) k = 150000000" for k by (simp add: quiet_def)
  have s: "sleeps (snd (FetchOnThisDay Later sample_client (quiet 503 [] [] 150000000) ''07'' ''20'' True))
       = [550000000, 1050000000]"
    by (simp add: FetchOnThisDay_def attempts.simps attempt_once_def quiet_def sample_client_def
          maxAttempts_def sleepContext_def jitter_def millisecond_def sleeps_def
          cacheFileOf_def urlOf_def)
  from backoff_sleeps [of Later sample_client "quiet 503 [] [] 150000000" "''07''" "''20''" True 150000000]
  have "\<exists>n\<le>2. sleeps (snd (FetchOnThisDay Later sample_client (quiet 503 [] [] 150000000) ''07'' ''20'' True))
       = take n [550000000, 1050000000]"
    by (simp add: i j millisecond_def)
  with j s show ?thesis by simp
qed

text \<open>
  Claim C5. Against a server that answers every request with 503, a call that reaches the
  network (month and day given, no fresh parseable cache entry or the cache bypassed, the
  request can be built) and whose context is not cancelled during the backoff makes exactly
  the three requests of attempts 1, 2 and 3 and returns the error whose text ends with the
  status code 503.
\<close>

theorem always_503_three_attempts:
  assumes "month \<noteq> []" and "day \<noteq> []"
    and miss: "bypassCache \<or> fst (tryCache cp c e (cacheFileOf c month day)) = None"
    and req: "newRequestErr e (urlOf month day) = None"
    and srv: "\<forall>k. \<exists>body. send e k = Response 503 body"
    and ctx: "\<forall>k. ctxDone e k = None"
  shows "fst (FetchOnThisDay cp c e month day bypassCache) = Inl ''API returned status code: 503''
       \<and> requests (snd (FetchOnThisDay cp c e month day bypassCache)) = [1, 2, 3]"
proof -
  let ?url = "urlOf month day" and ?cf = "cacheFileOf c month day"
  have once: "attempt_once cp e ?url ?cf bypassCache k
                = (Transient ''API returned status code: 503'', [Request k ?url])" for k
  proof -
    from srv obtain body where "send e k = Response 503 body" by blast
    with req show ?thesis by (simp add: attempt_once_def show_int_samples)
  qed
  have sc: "sleepContext e k d = (None, [Slept (d + jitter (int63 e k))])" for k d
    using ctx by (simp add: sleepContext_def)
  have loop: "attempts cp e ?url ?cf bypassCache 1 b None tr
     = (Inl ''API returned status code: 503'',
        tr @ [Request 1 ?url, Slept (b + jitter (int63 e 1)),
              Request 2 ?url, Slept (b * 2 + jitter (int63 e 2)), Request 3 ?url])" for b tr
    by (simp add: attempts.simps once sc maxAttempts_def numeral_2_eq_2 [symmetric])
  have reqs: "requests [Request 1 ?url, Slept d1, Request 2 ?url, Slept d2, Request 3 ?url] = [1, 2, 3]"
    for d1 d2 by (simp add: requests_def)
  show ?thesis
  proof (cases bypassCache)
    case True
    with assms(1,2) loop reqs show ?thesis by (simp add: FetchOnThisDay_def)
  next
    case False
    with miss have m: "fst (tryCache cp c e ?cf) = None" by simp
    obtain cx where cx: "tryCache cp c e ?cf = (None, cx)"
      using m by (cases "tryCache cp c e ?cf") simp
    have "requests cx = []" using tryCache_trace(2) [of cp c e ?cf] cx by simp
    with False assms(1,2) cx loop reqs show ?thesis by (simp add: FetchOnThisDay_def)
  qed
qed

theorem always_503_three_attempts_witness:
  "fst (FetchOnThisDay Later sample_client (quiet 503 ''Service Unavailable'' [] 7) ''07'' ''20'' False)
      = Inl ''API returned status code: 503''
   \<and> requests (snd (FetchOnThisDay Later sample_client (quiet 503 ''Service Unavailable'' [] 7) ''07'' ''20'' False))
      = [1, 2, 3]"
proof -
  let ?e = "quiet 503 ''Service Unavailable'' [] 7"
  have h1: "''07'' \<noteq> []" and h2: "''20'' \<noteq> []" by simp_all
  have h3: "False \<or> fst (tryCache Later sample_client ?e (cacheFileOf sample_client ''07'' ''20'')) = None"
    by (simp add: tryCache_def quiet_def)
  have h4: "newRequestErr ?e (urlOf ''07'' ''20'') = None" by (simp add: quiet_def)
  have h5: "\<forall>k. \<exists>body. send ?e k = Response 503 body" by (simp add: quiet_def)
  have h6: "\<forall>k. ctxDone ?e k = None" by (simp add: quiet_def)
  from always_503_three_attempts [OF h1 h2 h3 h4 h5 h6] show ?thesis .
qed

end
